theory Spec2Isabelle
  imports Complex_Main
begin

section \<open>Data model\<close>

text \<open>
  The program works on \<^verbatim>\<open>std::vector<std::complex<float>>\<close>.  A vector is modelled as
  a list.  \<^verbatim>\<open>Float\<close> is modelled as \<open>real\<close> and \<^verbatim>\<open>Complex\<close> as \<open>complex\<close>: all
  arithmetic is exact, so rounding, overflow to infinity and NaN are outside this model.
  The statements below say which expressions the program evaluates and in which order.
  How far the binary32 results are from the exact values is not modelled: the tests of
  the harness that compare a residual with the tolerance 0.01 are statements about
  rounding, and this theory makes no statement about them.
\<close>

type_synonym Signal = "complex list"

text \<open>
  \<^verbatim>\<open>assert\<close> aborts the process.  Reading a vector past its end has no defined
  behaviour; the model stops with \<open>OutOfBounds\<close> instead of reading.  Shifting the
  \<^verbatim>\<open>int\<close> constant 1 out of the range of \<^verbatim>\<open>int\<close> stops with \<open>ShiftOverflow\<close>.
\<close>

datatype failure = AssertionFailed | OutOfBounds | ShiftOverflow

text \<open>
  A call either never returns (\<open>None\<close>), aborts (\<open>Some (Inl f)\<close>) or returns a value
  (\<open>Some (Inr v)\<close>).
\<close>

type_synonym 'a run = "(failure + 'a) option"

definition bind_run :: "'a run \<Rightarrow> ('a \<Rightarrow> 'b run) \<Rightarrow> 'b run" where
  "bind_run r f = (case r of None \<Rightarrow> None | Some (Inl e) \<Rightarrow> Some (Inl e) | Some (Inr v) \<Rightarrow> f v)"

text \<open>A counting loop \<^verbatim>\<open>for (size_t i = 0; i != n; ++i) body\<close> over a state.\<close>

definition for_upto :: "nat \<Rightarrow> (nat \<Rightarrow> 's \<Rightarrow> 's) \<Rightarrow> 's \<Rightarrow> 's" where
  "for_upto n body s = fold body [0..<n] s"

section \<open>Machine integers\<close>

text \<open>
  \<^verbatim>\<open>size_t\<close> is the unsigned 64-bit integer of the target.  It is modelled as
  \<open>nat\<close>, with the wrap-around of the left shifts written out.  \<^verbatim>\<open>W\<close> and
  \<^verbatim>\<open>Q\<close> take \<^verbatim>\<open>int\<close> parameters and are called with \<^verbatim>\<open>size_t\<close> arguments:
  the conversion keeps the low 32 bits and reads them as two's complement.
\<close>

definition size_t_mod :: nat where
  "size_t_mod = 2 ^ 64"

definition shl1 :: "nat \<Rightarrow> nat" where
  "shl1 x = (2 * x) mod size_t_mod"

definition int_of_size_t :: "nat \<Rightarrow> int" where
  "int_of_size_t x = (let r = int (x mod 2 ^ 32) in if r < 2 ^ 31 then r else r - 2 ^ 32)"

section \<open>Bit reversal\<close>

text \<open>
  The loop of \<^verbatim>\<open>reverse_bits\<close> runs until \<^verbatim>\<open>i == max\<close>; it need not
  terminate, so it is a partial function.
\<close>

partial_function (option) reverse_bits_loop :: "nat \<Rightarrow> nat \<Rightarrow> nat \<Rightarrow> nat \<Rightarrow> nat option" where
  "reverse_bits_loop i max' result n =
     (if i \<noteq> max'
      then reverse_bits_loop (shl1 i) max' (or (shl1 result) (and n 1)) (n div 2)
      else Some result)"

definition reverse_bits :: "nat \<Rightarrow> nat \<Rightarrow> nat option" where
  "reverse_bits n max' = reverse_bits_loop 1 max' 0 n"

section \<open>Signal helpers\<close>

definition Signal_minus :: "Signal \<Rightarrow> Signal \<Rightarrow> failure + Signal" where
  "Signal_minus a b =
     (if length a \<noteq> length b then Inl AssertionFailed
      else Inr (for_upto (length a) (\<lambda>i result. result[i := a ! i - b ! i])
                  (replicate (length a) 0)))"

definition dot_Complex :: "complex \<Rightarrow> complex \<Rightarrow> complex" where
  "dot_Complex a b = a * cnj b"

definition dot :: "Signal \<Rightarrow> Signal \<Rightarrow> failure + complex" where
  "dot a b =
     (if length a \<noteq> length b then Inl AssertionFailed
      else Inr (for_upto (length a) (\<lambda>i result. result + dot_Complex (a ! i) (b ! i)) 0))"

section \<open>Reference transform\<close>

definition dft :: "Signal \<Rightarrow> Signal" where
  "dft signal =
     for_upto (length signal)
       (\<lambda>k result.
          result[k := for_upto (length signal)
            (\<lambda>n c. c + signal ! n *
               exp (- \<i> * 2 * of_real pi * of_nat k * of_nat n / of_nat (length signal)))
            0])
       (replicate (length signal) 0)"

definition idft :: "Signal \<Rightarrow> Signal" where
  "idft spectrum =
     for_upto (length spectrum)
       (\<lambda>n result.
          result[n := for_upto (length spectrum)
            (\<lambda>k c. c + spectrum ! k *
               exp (\<i> * 2 * of_real pi * of_nat k * of_nat n / of_nat (length spectrum)))
            0 / of_nat (length spectrum)])
       (replicate (length spectrum) 0)"

section \<open>Iterative transform\<close>

definition W :: "int \<Rightarrow> int \<Rightarrow> complex" where
  "W k N = exp (- \<i> * 2 * of_real pi * of_int k / of_int N)"

definition Q :: "int \<Rightarrow> int \<Rightarrow> complex" where
  "Q n N = exp (\<i> * 2 * of_real pi * of_int n / of_int N)"

text \<open>
  \<^verbatim>\<open>dst[i] = src[reverse_bits(i, N)]\<close> for \<open>i\<close> from 0 to \<open>N - 1\<close>.  The loop stops
  at the first call of \<^verbatim>\<open>reverse_bits\<close> that does not return.
\<close>

fun fft_init_loop :: "Signal \<Rightarrow> nat \<Rightarrow> nat list \<Rightarrow> Signal \<Rightarrow> Signal run" where
  "fft_init_loop src N [] dst = Some (Inr dst)"
| "fft_init_loop src N (i # is) dst =
     (case reverse_bits i N of
        None \<Rightarrow> None
      | Some r \<Rightarrow>
          if r < length src then fft_init_loop src N is (dst[i := src ! r])
          else Some (Inl OutOfBounds))"

definition fft_init :: "Signal \<Rightarrow> Signal \<Rightarrow> nat \<Rightarrow> Signal run" where
  "fft_init dst src N = fft_init_loop src N [0..<N] dst"

text \<open>
  \<^verbatim>\<open>fft_step_spectrum\<close> and \<^verbatim>\<open>ifft_step\<close> get a pointer into the buffer: the
  buffer \<open>y\<close> and the offset \<open>off\<close> of the block.  Every caller passes a block that lies
  inside the buffer: \<^verbatim>\<open>fft\<close> because \<open>transform_count * (N div transform_count) \<le> N\<close>,
  \<^verbatim>\<open>ifft\<close> because of its assertion, and the decomposition test of the harness
  because the block is the whole vector.  The sample indices are converted from \<^verbatim>\<open>size_t\<close> to the
  \<^verbatim>\<open>int\<close> parameters of \<^verbatim>\<open>W\<close> and \<^verbatim>\<open>Q\<close>.
\<close>

definition fft_step_spectrum :: "Signal \<Rightarrow> nat \<Rightarrow> nat \<Rightarrow> Signal" where
  "fft_step_spectrum y off spectrumSize =
     for_upto (spectrumSize div 2)
       (\<lambda>i y.
          let sample1 = i;
              sample2 = i + spectrumSize div 2;
              even' = y ! (off + sample1);
              odd' = y ! (off + sample2);
              y = y[off + sample1 :=
                      even' + W (int_of_size_t sample1) (int_of_size_t spectrumSize) * odd']
          in y[off + sample2 :=
                      even' + W (int_of_size_t sample2) (int_of_size_t spectrumSize) * odd'])
       y"

definition fft_step :: "Signal \<Rightarrow> nat \<Rightarrow> nat \<Rightarrow> Signal" where
  "fft_step y transform_count sample_count =
     for_upto transform_count
       (\<lambda>transform y. fft_step_spectrum y (transform * sample_count) sample_count) y"

function fft_loop :: "nat \<Rightarrow> Signal \<Rightarrow> nat \<Rightarrow> Signal" where
  "fft_loop N result transform_count =
     (if transform_count \<ge> 1
      then fft_loop N (fft_step result transform_count (N div transform_count))
             (transform_count div 2)
      else result)"
  by pat_completeness auto
termination
  by (relation "measure (\<lambda>(N, result, transform_count). transform_count)") auto

declare fft_loop.simps [simp del]

text \<open>
  \<^verbatim>\<open>fft\<close> allocates the result of \<open>N\<close> zeros and passes the address of its first
  element.  For the empty signal no element is accessed, and the empty buffer is passed.
\<close>

definition fft :: "Signal \<Rightarrow> Signal run" where
  "fft signal =
     (let N = length signal in
      bind_run (fft_init (replicate N 0) signal N)
        (\<lambda>result. Some (Inr (fft_loop N result (N div 2)))))"

definition ifft_step :: "Signal \<Rightarrow> nat \<Rightarrow> nat \<Rightarrow> Signal" where
  "ifft_step y off spectrumSize =
     for_upto (spectrumSize div 2)
       (\<lambda>i y.
          let sample1 = i;
              sample2 = i + spectrumSize div 2;
              even' = y ! (off + sample1);
              odd' = y ! (off + sample2);
              y = y[off + sample1 :=
                      0.5 * (even' + Q (int_of_size_t sample1) (int_of_size_t spectrumSize) * odd')]
          in y[off + sample2 :=
                      0.5 * (even' + Q (int_of_size_t sample2) (int_of_size_t spectrumSize) * odd')])
       y"

text \<open>
  The stage loop of \<^verbatim>\<open>ifft\<close>, with its assertion (assertions are enabled).  The left
  shift of \<^verbatim>\<open>sample_count\<close> can wrap, so the loop is a partial function too.
\<close>

partial_function (option) ifft_loop :: "nat \<Rightarrow> Signal \<Rightarrow> nat \<Rightarrow> nat \<Rightarrow> Signal run" where
  "ifft_loop N result sample_count transform_count =
     (if sample_count \<le> N
      then if (transform_count * sample_count) mod size_t_mod \<noteq> N
           then Some (Inl AssertionFailed)
           else ifft_loop N
                  (for_upto transform_count
                     (\<lambda>transform y. ifft_step y (transform * sample_count) sample_count) result)
                  (shl1 sample_count) (transform_count div 2)
      else Some (Inr result))"

text \<open>\<^verbatim>\<open>ifft\<close> starts with the loop of \<^verbatim>\<open>fft_init\<close>, written out in the source.\<close>

definition ifft :: "Signal \<Rightarrow> Signal run" where
  "ifft spectrum =
     (let N = length spectrum in
      bind_run (fft_init_loop spectrum N [0..<N] (replicate N 0))
        (\<lambda>result. ifft_loop N result 2 (N div 2)))"

section \<open>Differential test harness\<close>

definition error :: "Signal \<Rightarrow> Signal \<Rightarrow> failure + real" where
  "error a b =
     (case Signal_minus a b of
        Inl f \<Rightarrow> Inl f
      | Inr e \<Rightarrow>
          (case dot e e of
             Inl f \<Rightarrow> Inl f
           | Inr d \<Rightarrow> Inr (sqrt (Re d / of_nat (length e)))))"

definition prop_reverse_bits :: "nat \<Rightarrow> nat \<Rightarrow> nat \<Rightarrow> bool option" where
  "prop_reverse_bits n max' correct = map_option (\<lambda>r. r = correct) (reverse_bits n max')"

section \<open>Parallel transform\<close>

text \<open>
  The OpenCL backend and the kernels of \<^verbatim>\<open>fourier.cl\<close> are external.  The model of
  class \<^verbatim>\<open>Fourier\<close> keeps the sample power, the arguments currently bound to each
  kernel, and the commands that the host has put on \<^verbatim>\<open>m_queue\<close>, in order.  Every
  backend call is taken to succeed (a failing call ends the process in \<^verbatim>\<open>fatal\<close>).
  What a read of a device buffer returns depends on the kernels and is not modelled.
\<close>

datatype cl_mem = m_x_mem | m_y1_mem | m_y2_mem

datatype cl_kernel = m_init_kernel | m_step_kernel

datatype kernel_arg = Mem_arg cl_mem | UInt_arg nat

type_synonym cl_float2 = "real \<times> real"

datatype command =
    EnqueueWriteBuffer cl_mem "cl_float2 list"
  | EnqueueNDRangeKernel cl_kernel "kernel_arg option list" nat
  | EnqueueReadBuffer cl_mem
  | Finish

record Fourier =
  m_sample_power :: nat
  kernel_args :: "cl_kernel \<Rightarrow> nat \<Rightarrow> kernel_arg option"
  m_queue :: "command list"

text \<open>
  \<^verbatim>\<open>sample_count()\<close> is \<^verbatim>\<open>1 << m_sample_power\<close> on \<^verbatim>\<open>int\<close>: it is \<open>2 ^ m\<close> for
  \<open>m < 31\<close>.  \<open>Fourier_fft\<close> stops with \<open>ShiftOverflow\<close> for a larger sample power, so
  the definition is only used below 31.
\<close>

definition sample_count :: "Fourier \<Rightarrow> nat" where
  "sample_count F = 2 ^ m_sample_power F"

definition to_float2_vector :: "Signal \<Rightarrow> nat \<Rightarrow> failure + cl_float2 list" where
  "to_float2_vector vec count =
     (if count \<le> length vec
      then Inr (for_upto count (\<lambda>i result. result[i := (Re (vec ! i), Im (vec ! i))])
                  (replicate count (0, 0)))
      else Inl OutOfBounds)"

definition set_arg :: "Fourier \<Rightarrow> cl_kernel \<Rightarrow> nat \<Rightarrow> kernel_arg \<Rightarrow> Fourier" where
  "set_arg F kernel' arg_index arg =
     F\<lparr>kernel_args := (kernel_args F)(kernel' := (kernel_args F kernel')(arg_index := Some arg))\<rparr>"

definition run_kernel :: "Fourier \<Rightarrow> cl_kernel \<Rightarrow> Fourier" where
  "run_kernel F kernel' =
     (let global_work_size = sample_count F
      in F\<lparr>m_queue := m_queue F @
             [EnqueueNDRangeKernel kernel' (map (kernel_args F kernel') [0, 1, 2])
                global_work_size]\<rparr>)"

definition init :: "Fourier \<Rightarrow> cl_mem \<Rightarrow> nat \<Rightarrow> cl_mem \<Rightarrow> Fourier" where
  "init F x sample_power y =
     (let F = set_arg F m_init_kernel 0 (Mem_arg x);
          F = set_arg F m_init_kernel 1 (UInt_arg sample_power);
          F = set_arg F m_init_kernel 2 (Mem_arg y)
      in run_kernel F m_init_kernel)"

definition step :: "Fourier \<Rightarrow> cl_mem \<Rightarrow> nat \<Rightarrow> cl_mem \<Rightarrow> Fourier" where
  "step F y B y' =
     (let F = set_arg F m_step_kernel 0 (Mem_arg y);
          F = set_arg F m_step_kernel 1 (UInt_arg B);
          F = set_arg F m_step_kernel 2 (Mem_arg y')
      in run_kernel F m_step_kernel)"

definition load :: "Fourier \<Rightarrow> cl_mem \<Rightarrow> cl_float2 list \<Rightarrow> failure + Fourier" where
  "load F mem buffer =
     (if length buffer \<noteq> sample_count F then Inl AssertionFailed
      else Inr (F\<lparr>m_queue := m_queue F @ [EnqueueWriteBuffer mem buffer]\<rparr>))"

definition store :: "Fourier \<Rightarrow> cl_mem \<Rightarrow> Fourier" where
  "store F mem = F\<lparr>m_queue := m_queue F @ [EnqueueReadBuffer mem]\<rparr>"

definition finish :: "Fourier \<Rightarrow> Fourier" where
  "finish F = F\<lparr>m_queue := m_queue F @ [Finish]\<rparr>"

text \<open>
  The loop of \<^verbatim>\<open>Fourier::fft\<close>: \<^verbatim>\<open>B\<close> is a \<^verbatim>\<open>cl_uint\<close>, so the shift wraps at
  \<open>2 ^ 32\<close>, and the loop runs until \<^verbatim>\<open>B == sample_count()\<close>.
\<close>

partial_function (option) fft_dispatch_loop ::
    "Fourier \<Rightarrow> cl_mem \<Rightarrow> cl_mem \<Rightarrow> nat \<Rightarrow> (Fourier \<times> cl_mem) option" where
  "fft_dispatch_loop F y y' B =
     (if B \<noteq> sample_count F
      then fft_dispatch_loop (step F y B y') y' y ((2 * B) mod 2 ^ 32)
      else Some (F, y))"

definition Fourier_fft :: "Fourier \<Rightarrow> Signal \<Rightarrow> Fourier run" where
  "Fourier_fft F signal =
     (if \<not> m_sample_power F < 31 then Some (Inl ShiftOverflow)
      else case to_float2_vector signal (sample_count F) of
        Inl f \<Rightarrow> Some (Inl f)
      | Inr x_buffer \<Rightarrow>
          (case load F m_x_mem x_buffer of
             Inl f \<Rightarrow> Some (Inl f)
           | Inr F \<Rightarrow>
               (let F = init F m_x_mem (m_sample_power F mod 2 ^ 32) m_y1_mem
                in case fft_dispatch_loop F m_y1_mem m_y2_mem 1 of
                     None \<Rightarrow> None
                   | Some (F, y) \<Rightarrow> Some (Inr (finish (store F y))))))"

section \<open>Notions used in the proofs\<close>

text \<open>
  The two butterfly loops have the same shape: \<open>n\<close> iterations over a block at offset
  \<open>off\<close> whose halves are \<open>h\<close> apart, writing \<open>f i a b\<close> into the first half and
  \<open>g i a b\<close> into the second.  \<open>gstage\<close> runs it over \<open>T\<close> consecutive blocks of
  size \<open>S\<close>.
\<close>

definition gstep :: "(nat \<Rightarrow> complex \<Rightarrow> complex \<Rightarrow> complex) \<Rightarrow>
    (nat \<Rightarrow> complex \<Rightarrow> complex \<Rightarrow> complex) \<Rightarrow> nat \<Rightarrow> Signal \<Rightarrow> nat \<Rightarrow> nat \<Rightarrow> Signal" where
  "gstep f g n y off h =
     for_upto n
       (\<lambda>i y. (y[off + i := f i (y ! (off + i)) (y ! (off + i + h))])
                 [off + i + h := g i (y ! (off + i)) (y ! (off + i + h))]) y"

definition gstage :: "(nat \<Rightarrow> complex \<Rightarrow> complex \<Rightarrow> complex) \<Rightarrow>
    (nat \<Rightarrow> complex \<Rightarrow> complex \<Rightarrow> complex) \<Rightarrow> Signal \<Rightarrow> nat \<Rightarrow> nat \<Rightarrow> Signal" where
  "gstage f g y T S = for_upto T (\<lambda>t y. gstep f g (S div 2) y (t * S) (S div 2)) y"

text \<open>
  \<open>bitrev t n\<close> is the number whose \<open>t\<close> low bits are those of \<open>n\<close> in reverse order.
\<close>

fun bitrev :: "nat \<Rightarrow> nat \<Rightarrow> nat" where
  "bitrev 0 n = 0"
| "bitrev (Suc t) n = (n mod 2) * 2 ^ t + bitrev t (n div 2)"

text \<open>
  The samples at even and at odd positions, and the permutation that \<^verbatim>\<open>fft_init\<close>
  computes for a length \<open>2 ^ m\<close>.
\<close>

definition evens :: "'a list \<Rightarrow> 'a list" where
  "evens x = map (\<lambda>i. x ! (2 * i)) [0..<length x div 2]"

definition odds :: "'a list \<Rightarrow> 'a list" where
  "odds x = map (\<lambda>i. x ! (2 * i + 1)) [0..<length x div 2]"

definition perm :: "nat \<Rightarrow> 'a list \<Rightarrow> 'a list" where
  "perm m x = map (\<lambda>j. x ! bitrev m j) [0..<2 ^ m]"

text \<open>
  The twiddle factor \<open>exp (u * 2 * pi * k / S)\<close> on natural numbers, the two outputs of
  a butterfly with scale \<open>c\<close>, and the stages of block size 2, 4, ..., \<open>2 ^ k\<close> in
  this order.  The forward transform has \<open>u = - \<i>\<close> and \<open>c = 1\<close>, the inverse
  transform \<open>u = \<i>\<close> and \<open>c = 1 / 2\<close>.
\<close>

definition tw :: "complex \<Rightarrow> nat \<Rightarrow> nat \<Rightarrow> complex" where
  "tw u k S = exp (u * 2 * of_real pi * of_nat k / of_nat S)"

definition gF :: "complex \<Rightarrow> complex \<Rightarrow> nat \<Rightarrow> nat \<Rightarrow> complex \<Rightarrow> complex \<Rightarrow> complex" where
  "gF u c S i a b = c * (a + tw u i S * b)"

definition gG :: "complex \<Rightarrow> complex \<Rightarrow> nat \<Rightarrow> nat \<Rightarrow> complex \<Rightarrow> complex \<Rightarrow> complex" where
  "gG u c S i a b = c * (a + tw u (i + S div 2) S * b)"

fun gstages :: "complex \<Rightarrow> complex \<Rightarrow> Signal \<Rightarrow> nat \<Rightarrow> Signal" where
  "gstages u c y 0 = y"
| "gstages u c y (Suc k) =
     gstage (gF u c (2 ^ Suc k)) (gG u c (2 ^ Suc k)) (gstages u c y k)
       (length y div 2 ^ Suc k) (2 ^ Suc k)"

text \<open>
  The sum that the reference transforms compute for output index \<open>k\<close>, and the transform
  of a signal of length \<open>2 ^ m\<close> scaled by \<open>c ^ m\<close>.
\<close>

definition gsum :: "complex \<Rightarrow> nat \<Rightarrow> Signal \<Rightarrow> nat \<Rightarrow> complex" where
  "gsum u N x k = (\<Sum>n<N. x ! n * exp (u * 2 * of_real pi * of_nat k * of_nat n / of_nat N))"

definition gft :: "complex \<Rightarrow> complex \<Rightarrow> nat \<Rightarrow> Signal \<Rightarrow> Signal" where
  "gft u c m x = map (\<lambda>k. c ^ m * gsum u (2 ^ m) x k) [0..<2 ^ m]"

text \<open>
  The values that the loop variable \<^verbatim>\<open>i\<close> of \<^verbatim>\<open>reverse_bits\<close> takes: the powers of
  two below \<open>2 ^ 64\<close> and, after the last shift, 0.
\<close>

definition loop_value :: "nat \<Rightarrow> bool" where
  "loop_value i = (i = 0 \<or> (\<exists>k<64. i = 2 ^ k))"

text \<open>
  The buffer that holds the output of the first \<open>k\<close> butterfly dispatches of the parallel
  transform, and the dispatch number \<open>k\<close> for sample power \<open>m\<close>.
\<close>

definition pingpong :: "nat \<Rightarrow> cl_mem" where
  "pingpong k = (if even k then m_y1_mem else m_y2_mem)"

definition step_command :: "nat \<Rightarrow> nat \<Rightarrow> command" where
  "step_command m k =
     EnqueueNDRangeKernel m_step_kernel
       [Some (Mem_arg (pingpong k)), Some (UInt_arg (2 ^ k)), Some (Mem_arg (pingpong (Suc k)))]
       (2 ^ m)"

section \<open>Properties\<close>

subsection \<open>Counting loops\<close>

lemma for_upto_0: "for_upto 0 body s = s"
  by (simp add: for_upto_def)

lemma for_upto_Suc: "for_upto (Suc n) body s = body n (for_upto n body s)"
  by (simp add: for_upto_def)

subsection \<open>One butterfly loop, elementwise\<close>

lemma gstep_0: "gstep f g 0 y off h = y"
  by (simp add: gstep_def for_upto_0)

lemma gstep_Suc:
  "gstep f g (Suc n) y off h =
     (let z = gstep f g n y off h in
      (z[off + n := f n (z ! (off + n)) (z ! (off + n + h))])
        [off + n + h := g n (z ! (off + n)) (z ! (off + n + h))])"
  by (simp add: gstep_def for_upto_Suc Let_def)

lemma length_gstep: "length (gstep f g n y off h) = length y"
  by (induction n) (simp_all add: gstep_0 gstep_Suc Let_def)

lemma gstep_nth:
  assumes "n \<le> h" "off + 2 * h \<le> length y" "j < length y"
  shows "gstep f g n y off h ! j =
     (if off \<le> j \<and> j < off + n then f (j - off) (y ! j) (y ! (j + h))
      else if off + h \<le> j \<and> j < off + h + n then g (j - off - h) (y ! (j - h)) (y ! j)
      else y ! j)"
  using assms
proof (induction n arbitrary: j)
  case 0
  then show ?case by (auto simp: gstep_0)
next
  case (Suc n)
  have a: "gstep f g n y off h ! (off + n) = y ! (off + n)"
    using Suc.prems by (subst Suc.IH) auto
  have b: "gstep f g n y off h ! (off + n + h) = y ! (off + n + h)"
    using Suc.prems by (subst Suc.IH) auto
  have c: "gstep f g n y off h ! j =
     (if off \<le> j \<and> j < off + n then f (j - off) (y ! j) (y ! (j + h))
      else if off + h \<le> j \<and> j < off + h + n then g (j - off - h) (y ! (j - h)) (y ! j)
      else y ! j)"
    using Suc.prems by (subst Suc.IH) auto
  show ?case
    using Suc.prems
    by (auto simp: gstep_Suc Let_def a b c nth_list_update length_gstep less_Suc_eq)
qed

lemma gstep_append_left:
  "off + n + h \<le> length a \<or> n = 0 \<Longrightarrow> gstep f g n (a @ b) off h = gstep f g n a off h @ b"
proof (induction n)
  case 0
  then show ?case by (simp add: gstep_0)
next
  case (Suc n)
  then have "gstep f g n (a @ b) off h = gstep f g n a off h @ b" by auto
  then show ?case
    using Suc.prems
    by (simp add: gstep_Suc Let_def nth_append list_update_append length_gstep)
qed

lemma gstep_append_right:
  "gstep f g n (a @ b) (length a + off) h = a @ gstep f g n b off h"
  by (induction n)
    (simp_all add: gstep_0 gstep_Suc Let_def nth_append list_update_append add.assoc)

subsection \<open>One stage over consecutive blocks\<close>

lemma gstage_0: "gstage f g y 0 S = y"
  by (simp add: gstage_def for_upto_0)

lemma gstage_Suc:
  "gstage f g y (Suc T) S = gstep f g (S div 2) (gstage f g y T S) (T * S) (S div 2)"
  by (simp add: gstage_def for_upto_Suc)

lemma length_gstage: "length (gstage f g y T S) = length y"
  by (induction T) (simp_all add: gstage_0 gstage_Suc length_gstep)

lemma gstage_append_left:
  "T * S \<le> length a \<Longrightarrow> gstage f g (a @ b) T S = gstage f g a T S @ b"
proof (induction T)
  case 0
  then show ?case by (simp add: gstage_0)
next
  case (Suc T)
  then have ih: "gstage f g (a @ b) T S = gstage f g a T S @ b" by simp
  have "T * S + S div 2 + S div 2 \<le> length a"
    using Suc.prems by simp
  then show ?case
    by (simp add: gstage_Suc ih gstep_append_left length_gstage)
qed

lemma gstage_append:
  "length a = T1 * S \<Longrightarrow>
   gstage f g (a @ b) (T1 + T2) S = gstage f g a T1 S @ gstage f g b T2 S"
proof (induction T2)
  case 0
  then show ?case by (simp add: gstage_append_left gstage_0)
next
  case (Suc T2)
  then have ih: "gstage f g (a @ b) (T1 + T2) S = gstage f g a T1 S @ gstage f g b T2 S"
    by simp
  have l: "length (gstage f g a T1 S) = T1 * S"
    using Suc.prems by (simp add: length_gstage)
  show ?case
    using gstep_append_right [of f g "S div 2" "gstage f g a T1 S" "gstage f g b T2 S"
        "T2 * S" "S div 2"]
    by (simp add: gstage_Suc ih l add_mult_distrib)
qed

subsection \<open>Bit reversal for a power of two\<close>

lemma bitrev_less: "bitrev t n < 2 ^ t"
proof (induction t arbitrary: n)
  case 0
  show ?case by simp
next
  case (Suc t)
  have "n mod 2 = 0 \<or> n mod 2 = 1" by auto
  then show ?case using Suc [of "n div 2"] by auto
qed

lemma or_shift_bit: "or (2 * r) (n mod 2) = 2 * r + n mod (2::nat)"
proof (cases "even n")
  case True
  then show ?thesis by simp
next
  case False
  then have "n mod 2 = 1" by (simp add: odd_iff_mod_2_eq_one)
  then show ?thesis by (simp add: or_Suc_0_eq)
qed

lemma shl1_small: "x < 2 ^ 63 \<Longrightarrow> shl1 x = 2 * x"
  by (simp add: shl1_def size_t_mod_def)

lemma reverse_bits_loop_pow2:
  "k + t = m \<Longrightarrow> m < 64 \<Longrightarrow> result < 2 ^ k \<Longrightarrow>
   reverse_bits_loop (2 ^ k) (2 ^ m) result n = Some (result * 2 ^ t + bitrev t n)"
proof (induction t arbitrary: k result n)
  case 0
  then show ?case by (simp add: reverse_bits_loop.simps)
next
  case (Suc t)
  have km: "k < m" "k < 63" using Suc.prems by auto
  have ne: "(2::nat) ^ k \<noteq> 2 ^ m" using km by simp
  have "(2::nat) ^ k \<le> 2 ^ 62" using km by (intro power_increasing) auto
  then have a: "shl1 (2 ^ k) = 2 ^ Suc k" by (simp add: shl1_small)
  have "result < 2 ^ 62" using Suc.prems(3) \<open>(2::nat) ^ k \<le> 2 ^ 62\<close> by linarith
  then have b: "shl1 result = 2 * result" by (simp add: shl1_small)
  have c: "2 * result + n mod 2 < 2 ^ Suc k" using Suc.prems(3) by simp
  have "reverse_bits_loop (2 ^ k) (2 ^ m) result n =
        reverse_bits_loop (2 ^ Suc k) (2 ^ m) (2 * result + n mod 2) (n div 2)"
    by (subst reverse_bits_loop.simps) (simp add: ne a b or_shift_bit and_one_eq del: power_Suc)
  also have "\<dots> = Some ((2 * result + n mod 2) * 2 ^ t + bitrev t (n div 2))"
    using Suc.prems c by (intro Suc.IH) auto
  finally show ?case by (simp add: algebra_simps)
qed

lemma reverse_bits_pow2: "m < 64 \<Longrightarrow> reverse_bits n (2 ^ m) = Some (bitrev m n)"
  using reverse_bits_loop_pow2 [of 0 m m 0 n] by (simp add: reverse_bits_def)

lemma bitrev_Suc_low: "j < 2 ^ m \<Longrightarrow> bitrev (Suc m) j = 2 * bitrev m j"
proof (induction m arbitrary: j)
  case 0
  then show ?case by simp
next
  case (Suc m)
  have "j div 2 < 2 ^ m" using Suc.prems by auto
  then have "bitrev (Suc m) (j div 2) = 2 * bitrev m (j div 2)" by (rule Suc.IH)
  then show ?case by (simp add: algebra_simps)
qed

lemma bitrev_Suc_high: "j < 2 ^ m \<Longrightarrow> bitrev (Suc m) (2 ^ m + j) = 2 * bitrev m j + 1"
proof (induction m arbitrary: j)
  case 0
  then show ?case by simp
next
  case (Suc m)
  have "j div 2 < 2 ^ m" using Suc.prems by auto
  then have ih: "bitrev (Suc m) (2 ^ m + j div 2) = 2 * bitrev m (j div 2) + 1" by (rule Suc.IH)
  have d: "(2 ^ Suc m + j) div 2 = 2 ^ m + j div 2" by simp
  have e: "(2 ^ Suc m + j) mod 2 = j mod 2" by simp
  have "bitrev (Suc (Suc m)) (2 ^ Suc m + j) = (j mod 2) * 2 ^ Suc m + bitrev (Suc m) (2 ^ m + j div 2)"
    by (subst bitrev.simps) (simp only: d e)
  then show ?case using ih by (simp add: algebra_simps)
qed

subsection \<open>The bit-reversal permutation\<close>

lemma for_upto_update:
  "k \<le> length d \<Longrightarrow> for_upto k (\<lambda>i d. d[i := f i]) d = map f [0..<k] @ drop k d"
proof (induction k)
  case 0
  then show ?case by (simp add: for_upto_0)
next
  case (Suc k)
  then have ih: "for_upto k (\<lambda>i d. d[i := f i]) d = map f [0..<k] @ drop k d" by simp
  have "(map f [0..<k] @ drop k d)[k := f k] = map f [0..<k] @ (drop k d)[0 := f k]"
    by (simp add: list_update_append)
  also have "(drop k d)[0 := f k] = f k # drop (Suc k) d"
    using Suc.prems by (metis Cons_nth_drop_Suc Suc_le_lessD list_update_code(2))
  finally show ?case by (simp add: for_upto_Suc ih)
qed

lemma for_upto_update_all:
  "length d = n \<Longrightarrow> for_upto n (\<lambda>i d. d[i := f i]) d = map f [0..<n]"
  by (simp add: for_upto_update)

lemma for_upto_sum:
  "for_upto n (\<lambda>i c. c + f i) (c0::complex) = c0 + (\<Sum>i<n. f i)"
  by (induction n) (simp_all add: for_upto_0 for_upto_Suc)

lemma fft_init_loop_pow2:
  assumes "m < 64" "length src = 2 ^ m" "\<forall>i \<in> set js. i < 2 ^ m"
  shows "fft_init_loop src (2 ^ m) js dst =
         Some (Inr (fold (\<lambda>i d. d[i := src ! bitrev m i]) js dst))"
  using assms(3)
proof (induction js arbitrary: dst)
  case Nil
  then show ?case by simp
next
  case (Cons j js)
  have "bitrev m j < length src" using assms(2) by (simp add: bitrev_less)
  then show ?case using Cons assms(1) by (simp add: reverse_bits_pow2)
qed

lemma fft_init_pow2:
  assumes "m < 64" "length src = 2 ^ m" "length dst = 2 ^ m"
  shows "fft_init_loop src (2 ^ m) [0..<2 ^ m] dst = Some (Inr (perm m src))"
proof -
  have "fold (\<lambda>i d. d[i := src ! bitrev m i]) [0..<2 ^ m] dst = map (\<lambda>i. src ! bitrev m i) [0..<2 ^ m]"
    using for_upto_update_all [of dst "2 ^ m" "\<lambda>i. src ! bitrev m i"] assms(3)
    by (simp add: for_upto_def)
  then show ?thesis
    using fft_init_loop_pow2 [OF assms(1,2), of "[0..<2 ^ m]" dst] by (simp add: perm_def)
qed

lemma length_evens: "length (evens x) = length x div 2"
  by (simp add: evens_def)

lemma length_odds: "length (odds x) = length x div 2"
  by (simp add: odds_def)

lemma length_perm: "length (perm m x) = 2 ^ m"
  by (simp add: perm_def)

lemma perm_Suc:
  assumes "length x = 2 ^ Suc m"
  shows "perm (Suc m) x = perm m (evens x) @ perm m (odds x)"
proof (rule nth_equalityI)
  show "length (perm (Suc m) x) = length (perm m (evens x) @ perm m (odds x))"
    by (simp add: length_perm)
next
  fix j assume "j < length (perm (Suc m) x)"
  then have j: "j < 2 ^ Suc m" by (simp add: length_perm)
  have h: "length x div 2 = 2 ^ m" using assms by simp
  show "perm (Suc m) x ! j = (perm m (evens x) @ perm m (odds x)) ! j"
  proof (cases "j < 2 ^ m")
    case True
    have "bitrev m j < 2 ^ m" by (rule bitrev_less)
    then show ?thesis
      using True j h
      by (simp add: perm_def nth_append evens_def bitrev_Suc_low del: bitrev.simps upt_Suc power_Suc)
  next
    case False
    define i where "i = j - 2 ^ m"
    have i: "i < 2 ^ m" "j = 2 ^ m + i" using False j by (auto simp: i_def)
    have "bitrev m i < 2 ^ m" by (rule bitrev_less)
    then show ?thesis
      using i j h
      by (simp add: perm_def nth_append odds_def bitrev_Suc_high del: bitrev.simps upt_Suc power_Suc)
  qed
qed

subsection \<open>The stage loops\<close>

lemma gstep_cong:
  "(\<And>i a b. i < n \<Longrightarrow> f i a b = f' i a b) \<Longrightarrow> (\<And>i a b. i < n \<Longrightarrow> g i a b = g' i a b) \<Longrightarrow>
   gstep f g n y off h = gstep f' g' n y off h"
  by (induction n) (simp_all add: gstep_0 gstep_Suc)

lemma gstage_cong:
  "(\<And>i a b. i < S div 2 \<Longrightarrow> f i a b = f' i a b) \<Longrightarrow>
   (\<And>i a b. i < S div 2 \<Longrightarrow> g i a b = g' i a b) \<Longrightarrow>
   gstage f g y T S = gstage f' g' y T S"
proof (induction T)
  case 0
  show ?case by (simp add: gstage_0)
next
  case (Suc T)
  then have "gstage f g y T S = gstage f' g' y T S" by simp
  then show ?case
    using gstep_cong [of "S div 2" f f' g g'] Suc.prems by (simp add: gstage_Suc)
qed

lemma int_of_size_t_small: "n < 2 ^ 31 \<Longrightarrow> int_of_size_t n = int n"
  by (simp add: int_of_size_t_def Let_def)

lemma W_tw: "W (int k) (int S) = tw (- \<i>) k S"
  by (simp add: W_def tw_def)


lemma fft_step_spectrum_gstep:
  "fft_step_spectrum y off S =
   gstep (\<lambda>i a b. a + W (int_of_size_t i) (int_of_size_t S) * b)
         (\<lambda>i a b. a + W (int_of_size_t (i + S div 2)) (int_of_size_t S) * b)
         (S div 2) y off (S div 2)"
  by (simp add: fft_step_spectrum_def gstep_def Let_def add.assoc)

lemma ifft_step_gstep:
  "ifft_step y off S =
   gstep (\<lambda>i a b. 0.5 * (a + Q (int_of_size_t i) (int_of_size_t S) * b))
         (\<lambda>i a b. 0.5 * (a + Q (int_of_size_t (i + S div 2)) (int_of_size_t S) * b))
         (S div 2) y off (S div 2)"
  by (simp add: ifft_step_def gstep_def Let_def add.assoc)

lemma fft_step_spectrum_ideal:
  assumes "S < 2 ^ 31"
  shows "fft_step_spectrum y off S = gstep (gF (- \<i>) 1 S) (gG (- \<i>) 1 S) (S div 2) y off (S div 2)"
proof -
  have "\<And>i. i < S div 2 \<Longrightarrow> i < 2 ^ 31 \<and> i + S div 2 < 2 ^ 31" using assms by auto
  then show ?thesis
    unfolding fft_step_spectrum_gstep
    using assms
    by (intro gstep_cong) (simp_all add: int_of_size_t_small W_tw gF_def gG_def del: of_nat_add)
qed


lemma fft_step_ideal:
  "S < 2 ^ 31 \<Longrightarrow> fft_step y T S = gstage (gF (- \<i>) 1 S) (gG (- \<i>) 1 S) y T S"
  by (simp add: fft_step_def gstage_def fft_step_spectrum_ideal)


lemma length_gstages: "length (gstages u c y k) = length y"
  by (induction k) (simp_all add: length_gstage del: power_Suc)

lemma pow2_31: "m < 31 \<Longrightarrow> (2::nat) ^ m < 2 ^ 31"
  by (rule power_strict_increasing) simp_all

lemma pow2_div: "j \<le> m \<Longrightarrow> (2::nat) ^ m div 2 ^ j = 2 ^ (m - j)"
  by (simp add: power_diff)

lemma fft_loop_stages:
  "length y = 2 ^ m \<Longrightarrow> m < 31 \<Longrightarrow> k + Suc j = m \<Longrightarrow>
   fft_loop (2 ^ m) (gstages (- \<i>) 1 y k) (2 ^ j) = gstages (- \<i>) 1 y m"
proof (induction j arbitrary: k)
  case 0
  then have m: "m = Suc k" by simp
  have s: "(2::nat) ^ Suc k < 2 ^ 31" using 0 by (intro pow2_31) simp
  have "fft_loop (2 ^ m) (gstages (- \<i>) 1 y k) (2 ^ 0) =
        fft_loop (2 ^ m) (fft_step (gstages (- \<i>) 1 y k) 1 (2 ^ m)) 0"
    by (subst fft_loop.simps) simp
  also have "\<dots> = fft_step (gstages (- \<i>) 1 y k) 1 (2 ^ m)"
    by (subst fft_loop.simps) simp
  finally show ?case
    using 0 s by (simp add: m fft_step_ideal del: power_Suc)
next
  case (Suc j)
  have d: "(2::nat) ^ m div 2 ^ Suc j = 2 ^ Suc k"
    using Suc.prems by (subst pow2_div) auto
  have d2: "length y div 2 ^ Suc k = 2 ^ Suc j"
    using Suc.prems by (simp only:, subst pow2_div) auto
  have s: "(2::nat) ^ Suc k < 2 ^ 31" using Suc.prems by (intro pow2_31) simp
  have "fft_loop (2 ^ m) (gstages (- \<i>) 1 y k) (2 ^ Suc j) =
        fft_loop (2 ^ m) (fft_step (gstages (- \<i>) 1 y k) (2 ^ Suc j) (2 ^ Suc k)) (2 ^ j)"
    by (subst fft_loop.simps) (simp add: d del: power_Suc, simp)
  also have "fft_step (gstages (- \<i>) 1 y k) (2 ^ Suc j) (2 ^ Suc k) = gstages (- \<i>) 1 y (Suc k)"
    using s by (simp add: fft_step_ideal d2 del: power_Suc)
  also have "fft_loop (2 ^ m) (gstages (- \<i>) 1 y (Suc k)) (2 ^ j) = gstages (- \<i>) 1 y m"
    using Suc.prems by (intro Suc.IH) auto
  finally show ?case .
qed

lemma fft_loop_pow2:
  assumes "length y = 2 ^ m" "m < 31"
  shows "fft_loop (2 ^ m) y (2 ^ m div 2) = gstages (- \<i>) 1 y m"
proof (cases m)
  case 0
  then show ?thesis by (simp add: fft_loop.simps)
next
  case (Suc j)
  then show ?thesis
    using fft_loop_stages [of y m 0 j] assms by simp
qed

lemma shl1_pow2: "k < 63 \<Longrightarrow> shl1 (2 ^ k) = 2 ^ Suc k"
proof -
  assume "k < 63"
  then have "(2::nat) ^ k < 2 ^ 63" by (intro power_strict_increasing) simp_all
  then show ?thesis by (simp add: shl1_small)
qed




lemma gstages_append:
  "length a = 2 ^ M \<Longrightarrow> length b = 2 ^ M \<Longrightarrow> k \<le> M \<Longrightarrow>
   gstages u c (a @ b) k = gstages u c a k @ gstages u c b k"
proof (induction k)
  case 0
  show ?case by simp
next
  case (Suc k)
  then have ih: "gstages u c (a @ b) k = gstages u c a k @ gstages u c b k" by simp
  have d: "(2::nat) ^ M div 2 ^ Suc k = 2 ^ (M - Suc k)"
    using Suc.prems by (intro pow2_div) simp
  have f: "(2::nat) ^ M + 2 ^ M = 2 ^ Suc M" by simp
  have "M - k = Suc (M - Suc k)" using Suc.prems by simp
  then have "(2::nat) ^ (M - k) = 2 ^ (M - Suc k) + 2 ^ (M - Suc k)" by simp
  then have e: "((2::nat) ^ M + 2 ^ M) div 2 ^ Suc k = 2 ^ (M - Suc k) + 2 ^ (M - Suc k)"
    using Suc.prems pow2_div [of "Suc k" "Suc M"] unfolding f by (simp del: power_Suc)
  have l: "length (gstages u c a k) = 2 ^ (M - Suc k) * 2 ^ Suc k"
    using Suc.prems by (simp add: length_gstages power_add [symmetric] del: power_Suc)
  show ?case
    using gstage_append [OF l, of "gF u c (2 ^ Suc k)" "gG u c (2 ^ Suc k)" "gstages u c b k" "2 ^ (M - Suc k)"]
    using Suc.prems by (simp add: ih d e del: power_Suc)
qed

subsection \<open>Splitting the sum over even and odd samples\<close>

lemma sum_even_odd:
  "(\<Sum>n<2 * (h::nat). f n) = (\<Sum>t<h. f (2 * t)) + (\<Sum>t<h. (f (2 * t + 1) :: complex))"
  by (induction h) (simp_all add: algebra_simps)

lemma exp_period_nat:
  assumes "exp (u * 2 * of_real pi) = (1::complex)"
  shows "exp (u * 2 * of_real pi * of_nat q) = 1"
  using assms by (simp add: exp_of_nat2_mult)

lemma exp_even_term:
  assumes "exp (u * 2 * of_real pi) = (1::complex)" "0 < h"
  shows "exp (u * 2 * of_real pi * of_nat (i + q * h) * of_nat (2 * t) / of_nat (2 * h)) =
         exp (u * 2 * of_real pi * of_nat i * of_nat t / of_nat h)"
proof -
  have "u * 2 * of_real pi * of_nat (i + q * h) * of_nat (2 * t) / of_nat (2 * h) =
        u * 2 * of_real pi * of_nat i * of_nat t / of_nat h + u * 2 * of_real pi * of_nat (q * t)"
    using assms(2) by (simp add: field_simps)
  then show ?thesis
    using exp_period_nat [OF assms(1), of "q * t"] by (simp only: exp_add mult_1_right)
qed

lemma exp_odd_term:
  assumes "exp (u * 2 * of_real pi) = (1::complex)" "0 < h"
  shows "exp (u * 2 * of_real pi * of_nat (i + q * h) * of_nat (2 * t + 1) / of_nat (2 * h)) =
         tw u (i + q * h) (2 * h) * exp (u * 2 * of_real pi * of_nat i * of_nat t / of_nat h)"
proof -
  have "u * 2 * of_real pi * of_nat (i + q * h) * of_nat (2 * t + 1) / of_nat (2 * h) =
        u * 2 * of_real pi * of_nat (i + q * h) / of_nat (2 * h) +
        (u * 2 * of_real pi * of_nat i * of_nat t / of_nat h + u * 2 * of_real pi * of_nat (q * t))"
    using assms(2) by (simp add: field_simps)
  then show ?thesis
    using exp_period_nat [OF assms(1), of "q * t"] by (simp only: exp_add mult_1_right tw_def)
qed

lemma gsum_split:
  assumes "exp (u * 2 * of_real pi) = (1::complex)" "0 < h" "length x = 2 * h"
  shows "gsum u (2 * h) x (i + q * h) =
         gsum u h (evens x) i + tw u (i + q * h) (2 * h) * gsum u h (odds x) i"
proof -
  have e: "\<And>t. t < h \<Longrightarrow> evens x ! t = x ! (2 * t)"
    using assms(3) by (simp add: evens_def)
  have o: "\<And>t. t < h \<Longrightarrow> odds x ! t = x ! (2 * t + 1)"
    using assms(3) by (simp add: odds_def)
  have "gsum u (2 * h) x (i + q * h) =
        (\<Sum>t<h. x ! (2 * t) * exp (u * 2 * of_real pi * of_nat (i + q * h) * of_nat (2 * t) / of_nat (2 * h))) +
        (\<Sum>t<h. x ! (2 * t + 1) * exp (u * 2 * of_real pi * of_nat (i + q * h) * of_nat (2 * t + 1) / of_nat (2 * h)))"
    unfolding gsum_def by (rule sum_even_odd)
  also have "\<dots> =
        (\<Sum>t<h. x ! (2 * t) * exp (u * 2 * of_real pi * of_nat i * of_nat t / of_nat h)) +
        (\<Sum>t<h. x ! (2 * t + 1) * (tw u (i + q * h) (2 * h) * exp (u * 2 * of_real pi * of_nat i * of_nat t / of_nat h)))"
    by (simp only: exp_even_term [OF assms(1,2)] exp_odd_term [OF assms(1,2)])
  also have "\<dots> =
        (\<Sum>t<h. evens x ! t * exp (u * 2 * of_real pi * of_nat i * of_nat t / of_nat h)) +
        tw u (i + q * h) (2 * h) * (\<Sum>t<h. odds x ! t * exp (u * 2 * of_real pi * of_nat i * of_nat t / of_nat h))"
    by (simp add: e o sum_distrib_left mult_ac)
  finally show ?thesis by (simp add: gsum_def)
qed

subsection \<open>The stages after the permutation compute the transform\<close>

lemma length_gft: "length (gft u c m x) = 2 ^ m"
  by (simp add: gft_def)

lemma gft_nth: "k < 2 ^ m \<Longrightarrow> gft u c m x ! k = c ^ m * gsum u (2 ^ m) x k"
  by (simp add: gft_def)

lemma gft_Suc_low:
  assumes "exp (u * 2 * of_real pi) = (1::complex)" "length x = 2 ^ Suc m" "i < 2 ^ m"
  shows "gft u c (Suc m) x ! i =
         gF u c (2 ^ Suc m) i (gft u c m (evens x) ! i) (gft u c m (odds x) ! i)"
proof -
  have "gsum u (2 * 2 ^ m) x (i + 0 * 2 ^ m) =
        gsum u (2 ^ m) (evens x) i + tw u (i + 0 * 2 ^ m) (2 * 2 ^ m) * gsum u (2 ^ m) (odds x) i"
    using assms by (intro gsum_split) simp_all
  then show ?thesis
    using assms(3) by (simp add: gft_nth gF_def algebra_simps)
qed

lemma gft_Suc_high:
  assumes "exp (u * 2 * of_real pi) = (1::complex)" "length x = 2 ^ Suc m" "i < 2 ^ m"
  shows "gft u c (Suc m) x ! (i + 2 ^ m) =
         gG u c (2 ^ Suc m) i (gft u c m (evens x) ! i) (gft u c m (odds x) ! i)"
proof -
  have "gsum u (2 * 2 ^ m) x (i + 1 * 2 ^ m) =
        gsum u (2 ^ m) (evens x) i + tw u (i + 1 * 2 ^ m) (2 * 2 ^ m) * gsum u (2 ^ m) (odds x) i"
    using assms by (intro gsum_split) simp_all
  then show ?thesis
    using assms(3) by (simp add: gft_nth gG_def algebra_simps)
qed

lemma gstage_one: "gstage f g y 1 S = gstep f g (S div 2) y 0 (S div 2)"
  using gstage_Suc [of f g y 0 S] by (simp add: gstage_0)

lemma butterfly_gft:
  assumes "exp (u * 2 * of_real pi) = (1::complex)" "length x = 2 ^ Suc m"
  shows "gstep (gF u c (2 ^ Suc m)) (gG u c (2 ^ Suc m)) (2 ^ m)
           (gft u c m (evens x) @ gft u c m (odds x)) 0 (2 ^ m) = gft u c (Suc m) x"
proof (rule nth_equalityI)
  show "length (gstep (gF u c (2 ^ Suc m)) (gG u c (2 ^ Suc m)) (2 ^ m)
           (gft u c m (evens x) @ gft u c m (odds x)) 0 (2 ^ m)) = length (gft u c (Suc m) x)"
    by (simp add: length_gstep length_gft)
next
  fix j
  assume "j < length (gstep (gF u c (2 ^ Suc m)) (gG u c (2 ^ Suc m)) (2 ^ m)
           (gft u c m (evens x) @ gft u c m (odds x)) 0 (2 ^ m))"
  then have j: "j < 2 ^ Suc m" by (simp add: length_gstep length_gft)
  let ?y = "gft u c m (evens x) @ gft u c m (odds x)"
  have n: "gstep (gF u c (2 ^ Suc m)) (gG u c (2 ^ Suc m)) (2 ^ m) ?y 0 (2 ^ m) ! j =
     (if 0 \<le> j \<and> j < 0 + 2 ^ m then gF u c (2 ^ Suc m) (j - 0) (?y ! j) (?y ! (j + 2 ^ m))
      else if 0 + 2 ^ m \<le> j \<and> j < 0 + 2 ^ m + 2 ^ m
           then gG u c (2 ^ Suc m) (j - 0 - 2 ^ m) (?y ! (j - 2 ^ m)) (?y ! j)
      else ?y ! j)"
    using j by (intro gstep_nth) (simp_all add: length_gft)
  show "gstep (gF u c (2 ^ Suc m)) (gG u c (2 ^ Suc m)) (2 ^ m) ?y 0 (2 ^ m) ! j =
        gft u c (Suc m) x ! j"
  proof (cases "j < 2 ^ m")
    case True
    then show ?thesis
      unfolding n using gft_Suc_low [OF assms, of j c]
      by (simp add: nth_append length_gft del: power_Suc)
  next
    case False
    define i where "i = j - 2 ^ m"
    have i: "i < 2 ^ m" "j = i + 2 ^ m" using False j by (auto simp: i_def)
    show ?thesis
      unfolding n using gft_Suc_high [OF assms, of i c] i
      by (simp add: nth_append length_gft del: power_Suc)
  qed
qed

lemma gstages_perm:
  assumes "exp (u * 2 * of_real pi) = (1::complex)"
  shows "length x = 2 ^ m \<Longrightarrow> gstages u c (perm m x) m = gft u c m x"
proof (induction m arbitrary: x)
  case 0
  then obtain a where x: "x = [a]" by (cases x) auto
  show ?case by (simp add: x perm_def gft_def gsum_def)
next
  case (Suc m)
  have le: "length (evens x) = 2 ^ m" "length (odds x) = 2 ^ m"
    using Suc.prems by (simp_all add: length_evens length_odds)
  have "gstages u c (perm (Suc m) x) m =
        gstages u c (perm m (evens x)) m @ gstages u c (perm m (odds x)) m"
    unfolding perm_Suc [OF Suc.prems]
    by (intro gstages_append [of _ m]) (simp_all add: length_perm)
  then have a: "gstages u c (perm (Suc m) x) m = gft u c m (evens x) @ gft u c m (odds x)"
    by (simp only: Suc.IH [OF le(1)] Suc.IH [OF le(2)])
  have d: "length (perm (Suc m) x) div 2 ^ Suc m = 1" by (simp add: length_perm)
  have h: "(2::nat) ^ Suc m div 2 = 2 ^ m" by simp
  show ?case
    unfolding gstages.simps a d gstage_one h
    by (rule butterfly_gft [OF assms Suc.prems])
qed

subsection \<open>The iterative transforms and the reference transforms\<close>

text \<open>
  In exact arithmetic the iterative transforms of a signal of length \<open>2 ^ m\<close> (\<open>m < 31\<close>)
  are the reference transforms.  This says nothing about the rounding of either.
\<close>

lemma dft_eq: "dft x = map (gsum (- \<i>) (length x) x) [0..<length x]"
  by (simp add: dft_def for_upto_update_all for_upto_sum gsum_def)

lemma idft_eq: "idft x = map (\<lambda>n. gsum \<i> (length x) x n / of_nat (length x)) [0..<length x]"
proof -
  have "\<And>n. (\<Sum>k<length x. x ! k * exp (\<i> * 2 * of_real pi * of_nat k * of_nat n / of_nat (length x))) =
            gsum \<i> (length x) x n"
    unfolding gsum_def by (intro sum.cong refl) (simp add: mult_ac)
  then show ?thesis
    by (simp add: idft_def for_upto_update_all for_upto_sum)
qed

lemma length_dft: "length (dft x) = length x"
  by (simp add: dft_eq)

lemma length_idft: "length (idft x) = length x"
  by (simp add: idft_eq)

lemma exp_forward_period: "exp (- \<i> * 2 * of_real pi) = (1::complex)"
proof -
  have "exp (- (\<i> * (of_real pi * 2))) = (1::complex)"
    by (simp only: exp_minus exp_two_pi_i' inverse_1)
  then show ?thesis by (simp add: mult_ac)
qed


lemma dft_gft: "length x = 2 ^ m \<Longrightarrow> dft x = gft (- \<i>) 1 m x"
  by (simp add: dft_eq gft_def)


lemma fft_pow2:
  assumes "length x = 2 ^ m" "m < 31"
  shows "fft x = Some (Inr (dft x))"
proof -
  have i: "fft_init (replicate (2 ^ m) 0) x (2 ^ m) = Some (Inr (perm m x))"
    unfolding fft_init_def using assms by (intro fft_init_pow2) simp_all
  have "fft_loop (2 ^ m) (perm m x) (2 ^ m div 2) = gstages (- \<i>) 1 (perm m x) m"
    using assms(2) by (intro fft_loop_pow2) (simp_all add: length_perm)
  also have "\<dots> = gft (- \<i>) 1 m x"
    using exp_forward_period assms(1) by (rule gstages_perm)
  finally show ?thesis
    using assms(1) by (simp add: fft_def Let_def i bind_run_def dft_gft)
qed


subsection \<open>The residual\<close>

lemma Signal_minus_eq:
  "length a = length b \<Longrightarrow> Signal_minus a b = Inr (map (\<lambda>i. a ! i - b ! i) [0..<length a])"
  by (simp add: Signal_minus_def for_upto_update_all)

lemma dot_eq:
  "length a = length b \<Longrightarrow> dot a b = Inr (\<Sum>i<length a. a ! i * cnj (b ! i))"
  by (simp add: dot_def for_upto_sum dot_Complex_def)

lemma error_eq:
  "error a b =
     (if length a = length b
      then Inr (sqrt (Re (\<Sum>i<length a. (a ! i - b ! i) * cnj (a ! i - b ! i)) / real (length a)))
      else Inl AssertionFailed)"
  by (simp add: error_def Signal_minus_eq dot_eq) (simp add: Signal_minus_def)

subsection \<open>The reference inverse undoes the reference transform\<close>

text \<open>In exact arithmetic, for a signal of any length.\<close>

lemma orth_term:
  assumes "0 < N"
  shows "exp (- \<i> * 2 * of_real pi * of_nat k * of_nat j / of_nat N) *
         exp (\<i> * 2 * of_real pi * of_nat n * of_nat k / of_nat N) =
         (cis (2 * pi * real n / real N) / cis (2 * pi * real j / real N)) ^ k"
proof -
  have "(cis (2 * pi * real n / real N) / cis (2 * pi * real j / real N)) ^ k =
        cis (real k * (2 * pi * real n / real N - 2 * pi * real j / real N))"
    by (simp only: cis_divide DeMoivre)
  also have "\<dots> = exp (\<i> * of_real (real k * (2 * pi * real n / real N - 2 * pi * real j / real N)))"
    by (simp only: cis_conv_exp)
  also have "\<i> * of_real (real k * (2 * pi * real n / real N - 2 * pi * real j / real N)) =
             - \<i> * 2 * of_real pi * of_nat k * of_nat j / of_nat N +
             \<i> * 2 * of_real pi * of_nat n * of_nat k / of_nat N"
    using assms by (simp add: field_simps)
  finally show ?thesis by (simp only: exp_add)
qed

lemma root_quotient_neq_1:
  assumes "n < N" "j < N" "j \<noteq> n"
  shows "cis (2 * pi * real n / real N) / cis (2 * pi * real j / real N) \<noteq> 1"
proof
  assume "cis (2 * pi * real n / real N) / cis (2 * pi * real j / real N) = 1"
  then have e: "cis (2 * pi * real n / real N) = cis (2 * pi * real j / real N)" by simp
  have "0 < N" using assms by simp
  then have "inj_on (\<lambda>k. cis (2 * pi * real k / real N)) {..<N}"
    using bij_betw_roots_unity [of N] by (simp add: bij_betw_def)
  then have "n = j" using e assms by (auto dest: inj_onD)
  then show False using assms by simp
qed

lemma root_quotient_power:
  assumes "0 < N"
  shows "(cis (2 * pi * real n / real N) / cis (2 * pi * real j / real N)) ^ N = 1"
proof -
  have "\<And>k. cis (2 * pi * real k / real N) ^ N = 1"
  proof -
    fix k
    have "cis (2 * pi * real k / real N) ^ N = cis (2 * pi * real k)"
      using assms by (simp add: DeMoivre)
    then show "cis (2 * pi * real k / real N) ^ N = 1" by simp
  qed
  then show ?thesis by (simp add: power_divide)
qed

lemma orthogonality:
  assumes "n < N" "j < N"
  shows "(\<Sum>k<N. exp (- \<i> * 2 * of_real pi * of_nat k * of_nat j / of_nat N) *
                 exp (\<i> * 2 * of_real pi * of_nat n * of_nat k / of_nat N)) =
         (if j = n then of_nat N else 0)"
proof -
  have N: "0 < N" using assms by simp
  let ?z = "cis (2 * pi * real n / real N) / cis (2 * pi * real j / real N)"
  have s: "(\<Sum>k<N. exp (- \<i> * 2 * of_real pi * of_nat k * of_nat j / of_nat N) *
                 exp (\<i> * 2 * of_real pi * of_nat n * of_nat k / of_nat N)) = (\<Sum>k<N. ?z ^ k)"
    by (simp only: orth_term [OF N])
  show ?thesis
  proof (cases "j = n")
    case True
    then show ?thesis unfolding s by simp
  next
    case False
    then have "?z \<noteq> 1" using assms by (intro root_quotient_neq_1)
    then have "(\<Sum>k<N. ?z ^ k) = (?z ^ N - 1) / (?z - 1)" by (rule geometric_sum)
    then show ?thesis unfolding s using False by (simp only: root_quotient_power [OF N]) simp
  qed
qed

lemma idft_dft: "idft (dft x) = x"
proof (rule nth_equalityI)
  show "length (idft (dft x)) = length x" by (simp add: length_idft length_dft)
next
  fix n assume "n < length (idft (dft x))"
  then have n: "n < length x" by (simp add: length_idft length_dft)
  let ?N = "length x"
  have "gsum \<i> ?N (dft x) n =
        (\<Sum>k<?N. (\<Sum>j<?N. x ! j * exp (- \<i> * 2 * of_real pi * of_nat k * of_nat j / of_nat ?N)) *
                 exp (\<i> * 2 * of_real pi * of_nat n * of_nat k / of_nat ?N))"
    unfolding gsum_def [of \<i>] by (intro sum.cong refl) (simp add: dft_eq gsum_def)
  also have "\<dots> = (\<Sum>k<?N. \<Sum>j<?N. x ! j * (exp (- \<i> * 2 * of_real pi * of_nat k * of_nat j / of_nat ?N) *
                 exp (\<i> * 2 * of_real pi * of_nat n * of_nat k / of_nat ?N)))"
    by (simp only: sum_distrib_right mult.assoc)
  also have "\<dots> = (\<Sum>j<?N. \<Sum>k<?N. x ! j * (exp (- \<i> * 2 * of_real pi * of_nat k * of_nat j / of_nat ?N) *
                 exp (\<i> * 2 * of_real pi * of_nat n * of_nat k / of_nat ?N)))"
    by (rule sum.swap)
  also have "\<dots> = (\<Sum>j<?N. x ! j * (if j = n then of_nat ?N else 0))"
    by (intro sum.cong refl) (simp only: sum_distrib_left [symmetric] orthogonality [OF n] lessThan_iff)
  also have "\<dots> = x ! n * of_nat ?N"
    using n by (simp add: if_distrib [of "\<lambda>v. _ * v"] cong: if_cong)
  finally have "gsum \<i> ?N (dft x) n / of_nat ?N = x ! n" using n by auto
  then show "idft (dft x) ! n = x ! n"
    using n by (simp add: idft_eq length_dft)
qed

subsection \<open>One stage on the transforms of the even and the odd samples\<close>

text \<open>
  In exact arithmetic, for a length \<open>2 ^ m\<close> with \<open>0 < m < 31\<close>, one forward stage over the
  whole vector turns the transforms of the even and of the odd samples into the transform
  of the signal.
\<close>

lemma decomposed_dft:
  assumes "length x = 2 ^ Suc m" "Suc m < 31"
  shows "fft_step_spectrum (dft (evens x) @ dft (odds x)) 0
           (length (dft (evens x) @ dft (odds x))) = dft x"
proof -
  have le: "length (evens x) = 2 ^ m" "length (odds x) = 2 ^ m"
    using assms by (simp_all add: length_evens length_odds)
  have l: "length (dft (evens x) @ dft (odds x)) = 2 ^ Suc m"
    by (simp add: length_dft le)
  have s: "(2::nat) ^ Suc m < 2 ^ 31" using assms(2) by (rule pow2_31)
  have h: "(2::nat) ^ Suc m div 2 = 2 ^ m" by simp
  show ?thesis
    unfolding l fft_step_spectrum_ideal [OF s] h
    unfolding dft_gft [OF le(1)] dft_gft [OF le(2)] dft_gft [OF assms(1)]
    by (rule butterfly_gft [OF exp_forward_period assms(1)])
qed

subsection \<open>Lengths that are not a power of two\<close>

lemma loop_value_shl1: "loop_value i \<Longrightarrow> loop_value (shl1 i)"
proof -
  assume "loop_value i"
  then consider "i = 0" | k where "k < 64" "i = 2 ^ k" by (auto simp: loop_value_def)
  then show ?thesis
  proof cases
    case 1
    then show ?thesis by (simp add: loop_value_def shl1_def)
  next
    case 2
    show ?thesis
    proof (cases "k < 63")
      case True
      then have "shl1 (2 ^ k) = 2 ^ Suc k" by (rule shl1_pow2)
      moreover have "Suc k < 64" using True by simp
      ultimately show ?thesis unfolding 2 loop_value_def by blast
    next
      case False
      then have "k = 63" using 2 by simp
      then show ?thesis by (simp add: 2 loop_value_def shl1_def size_t_mod_def)
    qed
  qed
qed

lemma reverse_bits_loop_returns:
  "reverse_bits_loop i max' result n = Some y \<Longrightarrow> loop_value i \<Longrightarrow> loop_value max'"
proof (induction rule: reverse_bits_loop.raw_induct [rotated 1, consumes 1])
  case (1 reverse_bits_loop i max' result n y)
  show ?case
  proof (cases "i = max'")
    case True
    then show ?thesis using 1 by simp
  next
    case False
    then have "reverse_bits_loop (shl1 i) max' (or (shl1 result) (and n 1)) (n div 2) = Some y"
      using 1 by simp
    then show ?thesis using 1 loop_value_shl1 by blast
  qed
qed

lemma reverse_bits_diverges:
  assumes "max' \<noteq> 0" "\<not> (\<exists>k. max' = 2 ^ k)"
  shows "reverse_bits n max' = None"
proof (cases "reverse_bits n max'")
  case None
  then show ?thesis .
next
  case (Some y)
  have "loop_value 1" unfolding loop_value_def by (intro disjI2 exI [of _ 0]) simp
  then have "loop_value max'"
    using Some reverse_bits_loop_returns unfolding reverse_bits_def by blast
  then show ?thesis using assms by (auto simp: loop_value_def)
qed

lemma fft_init_loop_diverges:
  assumes "N \<noteq> 0" "\<not> (\<exists>k. N = 2 ^ k)"
  shows "fft_init_loop src N [0..<N] dst = None"
proof -
  have "[0..<N] = 0 # [1..<N]" using assms(1) by (simp add: upt_conv_Cons)
  then show ?thesis by (simp add: reverse_bits_diverges [OF assms])
qed

lemma fft_diverges:
  assumes "x \<noteq> []" "\<not> (\<exists>k. length x = 2 ^ k)"
  shows "fft x = None" "ifft x = None"
  using assms
  by (simp_all add: fft_def ifft_def fft_init_def Let_def fft_init_loop_diverges bind_run_def)

lemma fft_empty: "fft [] = Some (Inr [])"
  by (simp add: fft_def fft_init_def bind_run_def fft_loop.simps)

lemma ifft_empty: "ifft [] = Some (Inr [])"
  by (simp add: ifft_def bind_run_def ifft_loop.simps)

lemma three_not_pow2: "\<not> (\<exists>k. (3::nat) = 2 ^ k)"
proof
  assume "\<exists>k. (3::nat) = 2 ^ k"
  then obtain k where k: "(3::nat) = 2 ^ k" by blast
  show False
  proof (cases k)
    case 0
    then show ?thesis using k by simp
  next
    case (Suc j)
    then have "even ((2::nat) ^ k)" by simp
    then show ?thesis using k by (metis odd_numeral)
  qed
qed

lemma length_three_not_pow2: "\<not> (\<exists>k. length [a, b, c] = 2 ^ k)"
  using three_not_pow2 by (simp add: numeral_3_eq_3)

subsection \<open>One stage, elementwise\<close>

lemma gstage_untouched:
  "T * S \<le> length y \<Longrightarrow> T * S \<le> j \<Longrightarrow> j < length y \<Longrightarrow> gstage f g y T S ! j = y ! j"
proof (induction T)
  case 0
  show ?case by (simp add: gstage_0)
next
  case (Suc T)
  have b: "T * S + 2 * (S div 2) \<le> length (gstage f g y T S)"
    using Suc.prems by (simp add: length_gstage)
  have "T * S + S \<le> j" using Suc.prems by simp
  then have c: "\<not> j < T * S + S div 2" "\<not> j < T * S + S div 2 + S div 2" by linarith+
  have "gstage f g y (Suc T) S ! j = gstage f g y T S ! j"
    unfolding gstage_Suc
    using Suc.prems gstep_nth [OF le_refl b, of j f g] c by (simp add: length_gstage)
  also have "\<dots> = y ! j" using Suc.prems by (intro Suc.IH) simp_all
  finally show ?case .
qed

lemma gstage_nth:
  assumes "T * S \<le> length y" "t < T" "p < S div 2"
  shows "gstage f g y T S ! (t * S + p) = f p (y ! (t * S + p)) (y ! (t * S + p + S div 2)) \<and>
         gstage f g y T S ! (t * S + p + S div 2) =
           g p (y ! (t * S + p)) (y ! (t * S + p + S div 2))"
  using assms(1,2)
proof (induction T)
  case 0
  then show ?case by simp
next
  case (Suc T)
  let ?h = "S div 2"
  let ?z = "gstage f g y T S"
  have TS: "T * S \<le> length y" "T * S + S \<le> length y" using Suc.prems by simp_all
  have b: "T * S + 2 * ?h \<le> length ?z"
    using Suc.prems by (simp add: length_gstage)
  have n: "\<And>j. j < length y \<Longrightarrow> gstep f g ?h ?z (T * S) ?h ! j =
     (if T * S \<le> j \<and> j < T * S + ?h then f (j - T * S) (?z ! j) (?z ! (j + ?h))
      else if T * S + ?h \<le> j \<and> j < T * S + ?h + ?h
           then g (j - T * S - ?h) (?z ! (j - ?h)) (?z ! j)
      else ?z ! j)"
    using gstep_nth [OF le_refl b, of _ f g] by (simp add: length_gstage)
  show ?case
  proof (cases "t < T")
    case True
    then have "Suc t \<le> T" by simp
    then have "Suc t * S \<le> T * S" by (rule mult_le_mono1)
    then have "t * S + S \<le> T * S" by simp
    then have r: "t * S + p + ?h < T * S" "t * S + p < T * S"
      using assms(3) by linarith+
    then have "gstep f g ?h ?z (T * S) ?h ! (t * S + p) = ?z ! (t * S + p)"
          "gstep f g ?h ?z (T * S) ?h ! (t * S + p + ?h) = ?z ! (t * S + p + ?h)"
      using TS by (simp_all add: n)
    then show ?thesis
      unfolding gstage_Suc using Suc.IH [OF TS(1) True] by simp
  next
    case False
    then have t: "t = T" using Suc.prems by simp
    have r: "T * S + p + ?h < length y" using TS assms(3) by simp
    have u: "?z ! (T * S + p) = y ! (T * S + p)" "?z ! (T * S + p + ?h) = y ! (T * S + p + ?h)"
      using TS r by (simp_all add: gstage_untouched)
    have "gstep f g ?h ?z (T * S) ?h ! (T * S + p) = f p (?z ! (T * S + p)) (?z ! (T * S + p + ?h))"
      using r assms(3) by (simp add: n)
    moreover have "gstep f g ?h ?z (T * S) ?h ! (T * S + p + ?h) =
        g p (?z ! (T * S + p)) (?z ! (T * S + p + ?h))"
      using r assms(3) by (simp add: n)
    ultimately show ?thesis
      unfolding gstage_Suc t u by simp
  qed
qed

lemma W_half_turn:
  assumes "even S" "0 < S"
  shows "W (int (p + S div 2)) (int S) = - W (int p) (int S)"
proof -
  obtain h where h: "S = 2 * h" using assms(1) by (auto elim: evenE)
  have h0: "h \<noteq> 0" using assms(2) h by simp
  have "- \<i> * 2 * of_real pi * of_int (int (p + S div 2)) / of_int (int S) =
        - \<i> * 2 * of_real pi * of_int (int p) / of_int (int S) + - (\<i> * of_real pi)"
    using h0 by (simp add: h field_simps)
  then have "W (int (p + S div 2)) (int S) = W (int p) (int S) * exp (- (\<i> * of_real pi))"
    unfolding W_def by (simp only: exp_add)
  then show ?thesis by (simp add: exp_minus)
qed

lemma fft_step_gstage:
  "fft_step y T S =
   gstage (\<lambda>i a b. a + W (int_of_size_t i) (int_of_size_t S) * b)
          (\<lambda>i a b. a + W (int_of_size_t (i + S div 2)) (int_of_size_t S) * b) y T S"
  by (simp add: fft_step_def gstage_def fft_step_spectrum_gstep)

lemma ifft_stage_gstage:
  "for_upto T (\<lambda>transform y. ifft_step y (transform * S) S) y =
   gstage (\<lambda>i a b. 0.5 * (a + Q (int_of_size_t i) (int_of_size_t S) * b))
          (\<lambda>i a b. 0.5 * (a + Q (int_of_size_t (i + S div 2)) (int_of_size_t S) * b)) y T S"
  by (simp add: gstage_def ifft_step_gstep)

lemma W_exp:
  "k < 2 ^ 31 \<Longrightarrow> S < 2 ^ 31 \<Longrightarrow>
   W (int_of_size_t k) (int_of_size_t S) = exp (- \<i> * 2 * of_real pi * of_nat k / of_nat S)"
  by (simp add: int_of_size_t_small W_def)


lemma fft_butterfly:
  assumes "T * S \<le> length y" "t < T" "p < S div 2"
  shows "fft_step y T S ! (t * S + p) =
           y ! (t * S + p) +
           W (int_of_size_t p) (int_of_size_t S) * y ! (t * S + p + S div 2) \<and>
         fft_step y T S ! (t * S + p + S div 2) =
           y ! (t * S + p) +
           W (int_of_size_t (p + S div 2)) (int_of_size_t S) * y ! (t * S + p + S div 2)"
  unfolding fft_step_gstage by (rule gstage_nth [OF assms])


subsection \<open>The inverse transform, stage by stage\<close>

lemma Q_half_turn:
  assumes "even S" "0 < S"
  shows "Q (int (p + S div 2)) (int S) = - Q (int p) (int S)"
proof -
  obtain h where h: "S = 2 * h" using assms(1) by (auto elim: evenE)
  have h0: "h \<noteq> 0" using assms(2) h by simp
  have "\<i> * 2 * of_real pi * of_int (int (p + S div 2)) / of_int (int S) =
        \<i> * 2 * of_real pi * of_int (int p) / of_int (int S) + \<i> * of_real pi"
    using h0 by (simp add: h field_simps)
  then have "Q (int (p + S div 2)) (int S) = Q (int p) (int S) * exp (\<i> * of_real pi)"
    unfolding Q_def by (simp only: exp_add)
  then show ?thesis by simp
qed




subsection \<open>The commands of the parallel transform\<close>

lemma step_effect:
  "m_queue (step F y B y') =
     m_queue F @ [EnqueueNDRangeKernel m_step_kernel
                    [Some (Mem_arg y), Some (UInt_arg B), Some (Mem_arg y')]
                    (2 ^ m_sample_power F)] \<and>
   m_sample_power (step F y B y') = m_sample_power F"
  by (simp add: step_def set_arg_def run_kernel_def sample_count_def Let_def)

lemma init_effect:
  "m_queue (init F x p y) =
     m_queue F @ [EnqueueNDRangeKernel m_init_kernel
                    [Some (Mem_arg x), Some (UInt_arg p), Some (Mem_arg y)]
                    (2 ^ m_sample_power F)] \<and>
   m_sample_power (init F x p y) = m_sample_power F"
  by (simp add: init_def set_arg_def run_kernel_def sample_count_def Let_def)

lemma to_float2_vector_eq:
  "count \<le> length vec \<Longrightarrow>
   to_float2_vector vec count = Inr (map (\<lambda>z. (Re z, Im z)) (take count vec))"
proof -
  assume c: "count \<le> length vec"
  have "map (\<lambda>i. (Re (vec ! i), Im (vec ! i))) [0..<count] = map (\<lambda>z. (Re z, Im z)) (take count vec)"
    using c by (intro nth_equalityI) simp_all
  then show ?thesis
    using c by (simp add: to_float2_vector_def for_upto_update_all)
qed

lemma fft_dispatch_loop_pow2:
  "m_sample_power F = m \<Longrightarrow> m < 31 \<Longrightarrow> k + j = m \<Longrightarrow>
   \<exists>F'. fft_dispatch_loop F (pingpong k) (pingpong (Suc k)) (2 ^ k) = Some (F', pingpong m) \<and>
        m_queue F' = m_queue F @ map (step_command m) [k..<m] \<and> m_sample_power F' = m"
proof (induction j arbitrary: F k)
  case 0
  then show ?case
    by (subst fft_dispatch_loop.simps) (simp add: sample_count_def)
next
  case (Suc j)
  let ?F = "step F (pingpong k) (2 ^ k) (pingpong (Suc k))"
  have km: "k < m" using Suc.prems by simp
  have ne: "(2::nat) ^ k \<noteq> sample_count F" using km Suc.prems by (simp add: sample_count_def)
  have "(2::nat) ^ Suc k < 2 ^ 32" using km Suc.prems by (intro power_strict_increasing) simp_all
  then have B: "(2 * 2 ^ k) mod 2 ^ 32 = (2::nat) ^ Suc k" by simp
  have pp: "pingpong (Suc (Suc k)) = pingpong k" by (simp add: pingpong_def)
  have q: "m_queue ?F = m_queue F @ [step_command m k]" "m_sample_power ?F = m"
    using step_effect [of F "pingpong k" "2 ^ k" "pingpong (Suc k)"] Suc.prems
    by (simp_all add: step_command_def)
  obtain F' where F': "fft_dispatch_loop ?F (pingpong (Suc k)) (pingpong (Suc (Suc k))) (2 ^ Suc k) =
        Some (F', pingpong m)" "m_queue F' = m_queue ?F @ map (step_command m) [Suc k..<m]"
      "m_sample_power F' = m"
    using Suc.IH [of ?F "Suc k"] q(2) Suc.prems by auto
  have "fft_dispatch_loop F (pingpong k) (pingpong (Suc k)) (2 ^ k) =
        fft_dispatch_loop ?F (pingpong (Suc k)) (pingpong k) (2 ^ Suc k)"
    by (subst fft_dispatch_loop.simps) (simp only: ne B if_True not_False_eq_True)
  then have "fft_dispatch_loop F (pingpong k) (pingpong (Suc k)) (2 ^ k) = Some (F', pingpong m)"
    using F'(1) by (simp only: pp)
  moreover have "m_queue F' = m_queue F @ map (step_command m) [k..<m]"
    using F'(2) q(1) km by (simp add: upt_conv_Cons)
  ultimately show ?case using F'(3) by blast
qed

lemma Fourier_fft_queue:
  assumes "m_sample_power F = m" "m < 31" "2 ^ m \<le> length signal"
  shows "\<exists>F'. Fourier_fft F signal = Some (Inr F') \<and>
     m_queue F' = m_queue F @
       [EnqueueWriteBuffer m_x_mem (map (\<lambda>z. (Re z, Im z)) (take (2 ^ m) signal)),
        EnqueueNDRangeKernel m_init_kernel
          [Some (Mem_arg m_x_mem), Some (UInt_arg m), Some (Mem_arg m_y1_mem)] (2 ^ m)] @
       map (step_command m) [0..<m] @
       [EnqueueReadBuffer (pingpong m), Finish]"
proof -
  let ?buf = "map (\<lambda>z. (Re z, Im z)) (take (2 ^ m) signal)"
  let ?F1 = "F\<lparr>m_queue := m_queue F @ [EnqueueWriteBuffer m_x_mem ?buf]\<rparr>"
  let ?F2 = "init ?F1 m_x_mem (m_sample_power ?F1 mod 2 ^ 32) m_y1_mem"
  have v: "to_float2_vector signal (sample_count F) = Inr ?buf"
    using assms by (simp add: sample_count_def to_float2_vector_eq)
  have l: "load F m_x_mem ?buf = Inr ?F1"
    using assms by (simp add: load_def sample_count_def)
  have "m < 2 ^ 32" using assms(2) by (simp add: less_trans [of m 31])
  then have mm: "m_sample_power ?F1 mod 2 ^ 32 = m" using assms(1) by simp
  have q2: "m_queue ?F2 = m_queue F @ [EnqueueWriteBuffer m_x_mem ?buf,
        EnqueueNDRangeKernel m_init_kernel
          [Some (Mem_arg m_x_mem), Some (UInt_arg m), Some (Mem_arg m_y1_mem)] (2 ^ m)]"
      "m_sample_power ?F2 = m"
    using init_effect [of ?F1 m_x_mem "m_sample_power ?F1 mod 2 ^ 32" m_y1_mem] assms(1)
    unfolding mm by simp_all
  obtain F' where F': "fft_dispatch_loop ?F2 (pingpong 0) (pingpong (Suc 0)) (2 ^ 0) =
        Some (F', pingpong m)" "m_queue F' = m_queue ?F2 @ map (step_command m) [0..<m]"
    using fft_dispatch_loop_pow2 [OF q2(2) assms(2), of 0 m] by auto
  have p: "pingpong 0 = m_y1_mem" "pingpong (Suc 0) = m_y2_mem" by (simp_all add: pingpong_def)
  have "Fourier_fft F signal = Some (Inr (finish (store F' (pingpong m))))"
    using F'(1) assms(1,2) unfolding Fourier_fft_def p by (simp add: v l Let_def)
  moreover have "m_queue (finish (store F' (pingpong m))) =
      m_queue F' @ [EnqueueReadBuffer (pingpong m), Finish]"
    by (simp add: finish_def store_def)
  ultimately show ?thesis using F'(2) q2(1) by simp
qed

subsection \<open>The length of a returned result\<close>

lemma length_fft_step: "length (fft_step y T S) = length y"
  by (simp add: fft_step_gstage length_gstage)

lemma length_ifft_stage:
  "length (for_upto T (\<lambda>transform y. ifft_step y (transform * S) S) y) = length y"
  by (simp add: ifft_stage_gstage length_gstage)

lemma length_fft_loop: "length (fft_loop N y T) = length y"
proof (induction N y T rule: fft_loop.induct)
  case (1 N result transform_count)
  show ?case
  proof (cases "transform_count \<ge> 1")
    case True
    then show ?thesis
      using 1 by (subst fft_loop.simps) (simp add: length_fft_step)
  next
    case False
    then show ?thesis by (subst fft_loop.simps) simp
  qed
qed

lemma length_fft_init_loop:
  "fft_init_loop src N js dst = Some (Inr r) \<Longrightarrow> length r = length dst"
proof (induction js arbitrary: dst)
  case Nil
  then show ?case by simp
next
  case (Cons j js)
  then show ?case
    by (auto split: option.splits if_splits)
qed

lemma length_ifft_loop_aux:
  "ifft_loop N y S T = Some v \<Longrightarrow> v = Inr r \<Longrightarrow> length r = length y"
proof (induction arbitrary: r rule: ifft_loop.raw_induct [rotated 1, consumes 1])
  case (1 ifft_loop N y S T v)
  show ?case
  proof (cases "S \<le> N \<and> (T * S) mod size_t_mod = N")
    case True
    then have "ifft_loop N (for_upto T (\<lambda>transform y. ifft_step y (transform * S) S) y)
                 (shl1 S) (T div 2) = Some v"
      using 1(2) by simp
    then have "length r = length (for_upto T (\<lambda>transform y. ifft_step y (transform * S) S) y)"
      using 1(3) by (rule 1(1))
    then show ?thesis by (simp only: length_ifft_stage)
  next
    case False
    then show ?thesis using 1(2,3) by (auto split: if_splits)
  qed
qed

lemma length_ifft_loop:
  "ifft_loop N y S T = Some (Inr r) \<Longrightarrow> length r = length y"
  by (rule length_ifft_loop_aux [OF _ refl])

lemma length_fft:
  assumes "fft signal = Some (Inr r)"
  shows "length r = length signal"
proof (cases "fft_init (replicate (length signal) 0) signal (length signal)")
  case None
  then show ?thesis using assms by (simp add: fft_def Let_def bind_run_def)
next
  case (Some v)
  show ?thesis
  proof (cases v)
    case (Inl f)
    then show ?thesis using assms Some by (simp add: fft_def Let_def bind_run_def)
  next
    case (Inr d)
    then have "length d = length signal"
      using Some length_fft_init_loop [of signal "length signal" "[0..<length signal]"
          "replicate (length signal) 0" d]
      by (simp add: fft_init_def)
    then show ?thesis
      using assms Some Inr by (auto simp: fft_def Let_def bind_run_def length_fft_loop)
  qed
qed

lemma length_ifft:
  assumes "ifft spectrum = Some (Inr r)"
  shows "length r = length spectrum"
proof (cases "fft_init_loop spectrum (length spectrum) [0..<length spectrum]
                (replicate (length spectrum) 0)")
  case None
  then show ?thesis using assms by (simp add: ifft_def Let_def bind_run_def)
next
  case (Some v)
  show ?thesis
  proof (cases v)
    case (Inl f)
    then show ?thesis using assms Some by (simp add: ifft_def Let_def bind_run_def)
  next
    case (Inr d)
    then have "length d = length spectrum"
      using Some length_fft_init_loop [of spectrum "length spectrum" "[0..<length spectrum]"
          "replicate (length spectrum) 0" d]
      by simp
    moreover have "ifft_loop (length spectrum) d 2 (length spectrum div 2) = Some (Inr r)"
      using assms Some Inr by (simp add: ifft_def Let_def bind_run_def)
    ultimately show ?thesis using length_ifft_loop by fastforce
  qed
qed

section \<open>The statements of the specification\<close>

subsection \<open>Literal bit reversals\<close>

text \<open>
  C7.  \<^verbatim>\<open>reverse_bits(0xAA, 0x100)\<close> returns \<^verbatim>\<open>0x55\<close> and
  \<^verbatim>\<open>reverse_bits(0xA5, 0x100)\<close> returns \<^verbatim>\<open>0xA5\<close>, as exact integers; the two
  tests of \<^verbatim>\<open>main\<close> that check them pass.
\<close>

theorem reverse_bits_literals:
  "reverse_bits 0xAA 0x100 = Some 0x55 \<and> reverse_bits 0xA5 0x100 = Some 0xA5 \<and>
   prop_reverse_bits 0xAA 0x100 0x55 = Some True \<and>
   prop_reverse_bits 0xA5 0x100 0xA5 = Some True"
  by (simp add: prop_reverse_bits_def reverse_bits_def reverse_bits_loop.simps shl1_def
      size_t_mod_def)

subsection \<open>Signals of length one\<close>

text \<open>
  C10.  On a signal of length 1 the bit reversal maps index 0 to itself and no butterfly
  stage runs: \<^verbatim>\<open>fft\<close> and \<^verbatim>\<open>ifft\<close> both return the signal unchanged.
\<close>

theorem fft_ifft_singleton:
  "fft [x] = Some (Inr [x]) \<and> ifft [x] = Some (Inr [x])"
  by (simp add: fft_def ifft_def fft_init_def reverse_bits_def reverse_bits_loop.simps
      bind_run_def fft_loop.simps ifft_loop.simps)

subsection \<open>The residual function\<close>

text \<open>
  C8.  For sequences \<open>a\<close> and \<open>b\<close> of the same length \<open>N\<close>, \<^verbatim>\<open>error\<close> returns
  \<open>sqrt (Re (\<Sum>i. (a\<^sub>i - b\<^sub>i) * cnj (a\<^sub>i - b\<^sub>i)) / N)\<close>; when the lengths differ, the
  assertion of the subtraction fails.  (For two empty sequences the quotient is \<open>0 / 0\<close>,
  on both sides of the equation.)
\<close>

theorem residual_formula:
  "error a b =
     (if length a = length b
      then Inr (sqrt (Re (\<Sum>i<length a. (a ! i - b ! i) * cnj (a ! i - b ! i)) / real (length a)))
      else Inl AssertionFailed)"
  by (rule error_eq)

subsection \<open>Inputs whose length is not a power of two\<close>

text \<open>
  C6, as the code has it.  \<^verbatim>\<open>fft\<close> and \<^verbatim>\<open>ifft\<close> do not check the length.  For a
  signal whose length is not a power of two: the empty signal is returned unchanged by
  both; for every other such signal neither call returns, because the loop of the first
  call of \<^verbatim>\<open>reverse_bits\<close> never ends.  So there is no abort and no rejected result,
  and no result of another length either.
\<close>

theorem non_power_of_two_never_returns:
  assumes "\<not> (\<exists>k. length signal = 2 ^ k)"
  shows "(signal = [] \<longrightarrow> fft signal = Some (Inr []) \<and> ifft signal = Some (Inr [])) \<and>
         (signal \<noteq> [] \<longrightarrow> fft signal = None \<and> ifft signal = None) \<and>
         (\<forall>r. fft signal = Some (Inr r) \<longrightarrow> length r = length signal) \<and>
         (\<forall>r. ifft signal = Some (Inr r) \<longrightarrow> length r = length signal)"
  using assms fft_diverges [of signal] fft_empty ifft_empty length_fft [of signal]
    length_ifft [of signal]
  by simp

theorem non_power_of_two_never_returns_witness:
  "\<not> (\<exists>k. length [7, 6, 5 :: complex] = 2 ^ k) \<and>
   fft [7, 6, 5] = None \<and> ifft [7, 6, 5] = None \<and>
   \<not> (\<exists>k. length ([] :: Signal) = 2 ^ k) \<and>
   fft ([] :: Signal) = Some (Inr []) \<and> ifft ([] :: Signal) = Some (Inr [])"
  using non_power_of_two_never_returns [OF length_three_not_pow2, of 7 6 5]
    length_three_not_pow2 [of "7 :: complex" 6 5]
    non_power_of_two_never_returns [of "[]"]
  by simp

text \<open>
  The claim as stated, that both transforms abort or reject every such input, fails on a
  signal of length 3 (no return at all) and on the empty signal (a normal return).
\<close>

theorem non_power_of_two_counterexample:
  "fft [1, 2, 3] = None \<and> ifft [1, 2, 3] = None \<and>
   fft [] = Some (Inr []) \<and> ifft [] = Some (Inr [])"
  using fft_diverges [OF _ length_three_not_pow2, of 1 2 3] fft_empty ifft_empty by simp

subsection \<open>The forward butterfly\<close>

text \<open>
  C2.  In a forward butterfly stage of block size \<open>S\<close> over \<open>T\<close> blocks that lie inside
  the buffer, for the block at offset \<open>t * S\<close> and each local offset \<open>p\<close> in
  \<open>[0, S/2)\<close>, with \<open>a = y[t * S + p]\<close> and \<open>b = y[t * S + p + S/2]\<close> the values before
  the stage: the stage writes \<open>a + W(p, S) * b\<close> at \<open>t * S + p\<close> and
  \<open>a + W(p + S/2, S) * b\<close> at \<open>t * S + p + S/2\<close>.  Both outputs use the same function
  \<open>W\<close>, at the two sample indices of the pair, and \<open>W(k, S) = exp (- 2 * pi * \<i> * k / S)\<close>
  as long as \<open>S\<close> fits the \<^verbatim>\<open>int\<close> parameters of \<^verbatim>\<open>W\<close>.  (In exact arithmetic,
  for even \<open>S\<close>, the second factor is the negative of the first, \<open>W_half_turn\<close>.)
\<close>

theorem forward_butterfly_stage:
  assumes "T * S \<le> length y" and "t < T" and "p < S div 2"
  shows "fft_step y T S ! (t * S + p) =
           y ! (t * S + p) +
           W (int_of_size_t p) (int_of_size_t S) * y ! (t * S + p + S div 2) \<and>
         fft_step y T S ! (t * S + p + S div 2) =
           y ! (t * S + p) +
           W (int_of_size_t (p + S div 2)) (int_of_size_t S) * y ! (t * S + p + S div 2) \<and>
         (S < 2 ^ 31 \<longrightarrow>
            W (int_of_size_t p) (int_of_size_t S) =
              exp (- \<i> * 2 * of_real pi * of_nat p / of_nat S) \<and>
            W (int_of_size_t (p + S div 2)) (int_of_size_t S) =
              exp (- \<i> * 2 * of_real pi * of_nat (p + S div 2) / of_nat S))"
proof -
  have "S < 2 ^ 31 \<Longrightarrow> p < 2 ^ 31 \<and> p + S div 2 < 2 ^ 31"
    using assms(3) by linarith
  then show ?thesis
    using fft_butterfly [OF assms] W_exp [of p S] W_exp [of "p + S div 2" S] by blast
qed

theorem forward_butterfly_stage_witness:
  "2 * 2 \<le> length [7, 6, 5, 4 :: complex] \<and> (1::nat) < 2 \<and> (0::nat) < 2 div 2 \<and>
   (2::nat) < 2 ^ 31 \<and>
   fft_step [7, 6, 5, 4] 2 2 ! 2 = 5 + exp (- \<i> * 2 * of_real pi * 0 / 2) * 4 \<and>
   fft_step [7, 6, 5, 4] 2 2 ! 3 = 5 + exp (- \<i> * 2 * of_real pi * 1 / 2) * 4"
  using forward_butterfly_stage [of 2 2 "[7, 6, 5, 4]" 1 0] by simp

subsection \<open>The inverse transform\<close>



subsection \<open>Dispatch order of the parallel transform\<close>

text \<open>
  C9.  For sample power \<open>m < 31\<close> and \<open>N = 2 ^ m\<close>, \<^verbatim>\<open>Fourier::fft\<close> returns after
  putting on the queue, in this order: the upload of the \<open>N\<close> input samples into the
  buffer X; one Init dispatch from X into Y1; exactly \<open>m\<close> Step dispatches, the one
  numbered \<open>k = 0, \<dots>, m - 1\<close> with \<open>B = 2 ^ k\<close> (so 1, 2, 4, \<dots>, \<open>N / 2\<close>), reading the
  buffer that the dispatch before it wrote and writing the other buffer of the pair Y1,
  Y2; the download of the buffer written last; and the final synchronisation.  Every
  dispatch has \<open>N\<close> work items.
\<close>

theorem parallel_transform_dispatch_order:
  assumes "m_sample_power F = m" and "m < 31" and "2 ^ m \<le> length signal"
  shows "\<exists>F'. Fourier_fft F signal = Some (Inr F') \<and>
     m_queue F' = m_queue F @
       [EnqueueWriteBuffer m_x_mem (map (\<lambda>z. (Re z, Im z)) (take (2 ^ m) signal)),
        EnqueueNDRangeKernel m_init_kernel
          [Some (Mem_arg m_x_mem), Some (UInt_arg m), Some (Mem_arg m_y1_mem)] (2 ^ m)] @
       map (\<lambda>k. EnqueueNDRangeKernel m_step_kernel
                   [Some (Mem_arg (if even k then m_y1_mem else m_y2_mem)),
                    Some (UInt_arg (2 ^ k)),
                    Some (Mem_arg (if even k then m_y2_mem else m_y1_mem))] (2 ^ m)) [0..<m] @
       [EnqueueReadBuffer (if even m then m_y1_mem else m_y2_mem), Finish]"
proof -
  have "step_command m =
        (\<lambda>k. EnqueueNDRangeKernel m_step_kernel
                   [Some (Mem_arg (if even k then m_y1_mem else m_y2_mem)),
                    Some (UInt_arg (2 ^ k)),
                    Some (Mem_arg (if even k then m_y2_mem else m_y1_mem))] (2 ^ m))"
    by (rule ext) (simp add: step_command_def pingpong_def)
  then show ?thesis
    using Fourier_fft_queue [OF assms] by (simp add: pingpong_def)
qed

theorem parallel_transform_dispatch_order_witness:
  "m_sample_power \<lparr>m_sample_power = 2, kernel_args = \<lambda>k i. None, m_queue = []\<rparr> = 2 \<and>
   (2::nat) < 31 \<and> 2 ^ 2 \<le> length [7, 6, 5, 4 :: complex] \<and>
   (\<exists>F'. Fourier_fft \<lparr>m_sample_power = 2, kernel_args = \<lambda>k i. None, m_queue = []\<rparr>
            [7, 6, 5, 4] = Some (Inr F') \<and>
     m_queue F' =
       [EnqueueWriteBuffer m_x_mem [(7, 0), (6, 0), (5, 0), (4, 0)],
        EnqueueNDRangeKernel m_init_kernel
          [Some (Mem_arg m_x_mem), Some (UInt_arg 2), Some (Mem_arg m_y1_mem)] 4,
        EnqueueNDRangeKernel m_step_kernel
          [Some (Mem_arg m_y1_mem), Some (UInt_arg 1), Some (Mem_arg m_y2_mem)] 4,
        EnqueueNDRangeKernel m_step_kernel
          [Some (Mem_arg m_y2_mem), Some (UInt_arg 2), Some (Mem_arg m_y1_mem)] 4,
        EnqueueReadBuffer m_y1_mem, Finish])"
  using parallel_transform_dispatch_order
    [of "\<lparr>m_sample_power = 2, kernel_args = \<lambda>k i. None, m_queue = []\<rparr>" 2 "[7, 6, 5, 4]"]
  by (simp add: upt_conv_Cons)


end
